theory Spec2Isabelle
  imports Main "HOL-Library.Char_ord" "HOL-Library.Sublist"
begin

section \<open>Python strings\<close>

text \<open>
  A Python \<^verbatim>\<open>str\<close> is a list of characters, one per code point, so that \<open>length\<close>,
  \<open>take\<close> and \<open>drop\<close> count what Python's \<^verbatim>\<open>len\<close> and slices count. The character
  classes below are those of Python 3 on the ASCII range, which is where every keyword, verb
  and negation cue of \<^verbatim>\<open>src/intents.py\<close> lives; characters from 128 on belong to no class
  and are left unchanged by case conversion.
\<close>

text \<open>The class \<^verbatim>\<open>\w\<close> of the \<^verbatim>\<open>re\<close> module: letters, digits and the underscore.\<close>

definition is_word_char :: "char \<Rightarrow> bool" where
  "is_word_char c =
     ((CHR ''a'' \<le> c \<and> c \<le> CHR ''z'') \<or> (CHR ''A'' \<le> c \<and> c \<le> CHR ''Z'')
      \<or> (CHR ''0'' \<le> c \<and> c \<le> CHR ''9'') \<or> c = CHR ''_'')"

text \<open>
  \<^verbatim>\<open>str.isspace\<close>, the separators of \<^verbatim>\<open>str.split()\<close>: tab, line feed, vertical tab,
  form feed, carriage return, the four separators 0x1C to 0x1F, and the space.
\<close>

definition is_space :: "char \<Rightarrow> bool" where
  "is_space c = ((CHR 0x09 \<le> c \<and> c \<le> CHR 0x0D) \<or> (CHR 0x1C \<le> c \<and> c \<le> CHR 0x20))"

definition lower_char :: "char \<Rightarrow> char" where
  "lower_char c =
     (if CHR ''A'' \<le> c \<and> c \<le> CHR ''Z'' then char_of (of_char c + (32::nat)) else c)"

definition upper_char :: "char \<Rightarrow> char" where
  "upper_char c =
     (if CHR ''a'' \<le> c \<and> c \<le> CHR ''z'' then char_of (of_char c - (32::nat)) else c)"

text \<open>\<^verbatim>\<open>str.lower\<close>.\<close>

definition lower :: "string \<Rightarrow> string" where
  "lower s = map lower_char s"

text \<open>\<^verbatim>\<open>str.capitalize\<close>: the first character in upper case, all the others in lower case.\<close>

fun capitalize :: "string \<Rightarrow> string" where
  "capitalize [] = []"
| "capitalize (c # cs) = upper_char c # map lower_char cs"

text \<open>
  \<^verbatim>\<open>str.split()\<close> with no argument: the maximal runs of characters that are not
  whitespace, in order. \<open>cur\<close> holds the run being read, reversed.
\<close>

fun split_run :: "string \<Rightarrow> string \<Rightarrow> string list" where
  "split_run cur [] = (if cur = [] then [] else [rev cur])"
| "split_run cur (c # cs) =
     (if is_space c then (if cur = [] then split_run [] cs else rev cur # split_run [] cs)
      else split_run (c # cur) cs)"

definition split_ws :: "string \<Rightarrow> string list" where
  "split_ws s = split_run [] s"

text \<open>The slice \<^verbatim>\<open>xs[-n:]\<close> for a positive \<open>n\<close>: the last \<open>n\<close> elements, all of them when there are fewer.\<close>

definition last_n :: "nat \<Rightarrow> 'a list \<Rightarrow> 'a list" where
  "last_n n xs = drop (length xs - n) xs"

text \<open>The substring test \<^verbatim>\<open>sub in s\<close>.\<close>

fun contains :: "string \<Rightarrow> string \<Rightarrow> bool" where
  "contains [] sub = (sub = [])"
| "contains (c # cs) sub = (prefix sub (c # cs) \<or> contains cs sub)"

section \<open>The regular expressions of the module\<close>

text \<open>
  Every pattern of \<^verbatim>\<open>src/intents.py\<close> has the shape \<^verbatim>\<open>\b(a1|...|an)\b\<close> (one alternative
  for a keyword or a verb), where each alternative is a literal string; it is represented by
  the list of its alternatives. \<^verbatim>\<open>\b\<close> holds at an offset when exactly one of the two
  characters around it is a word character, the outside of the string counting as none.
\<close>

definition word_before :: "string \<Rightarrow> nat \<Rightarrow> bool" where
  "word_before s i = (0 < i \<and> i \<le> length s \<and> is_word_char (s ! (i - 1)))"

definition word_after :: "string \<Rightarrow> nat \<Rightarrow> bool" where
  "word_after s i = (i < length s \<and> is_word_char (s ! i))"

definition word_boundary :: "string \<Rightarrow> nat \<Rightarrow> bool" where
  "word_boundary s i = (word_before s i \<noteq> word_after s i)"

text \<open>
  The literal \<open>lit\<close> read at offset \<open>i\<close> of \<open>s\<close>; under \<^verbatim>\<open>re.IGNORECASE\<close> (flag \<open>ic\<close>) two
  characters agree when their lower-case forms do.
\<close>

definition literal_at :: "bool \<Rightarrow> string \<Rightarrow> string \<Rightarrow> nat \<Rightarrow> bool" where
  "literal_at ic lit s i =
     (if ic then map lower_char (take (length lit) (drop i s)) = map lower_char lit
      else take (length lit) (drop i s) = lit)"

text \<open>\<^verbatim>\<open>\blit\b\<close> matches at offset \<open>i\<close>.\<close>

definition match_at :: "bool \<Rightarrow> string \<Rightarrow> string \<Rightarrow> nat \<Rightarrow> bool" where
  "match_at ic lit s i =
     (word_boundary s i \<and> literal_at ic lit s i \<and> word_boundary s (i + length lit))"

text \<open>\<^verbatim>\<open>re.search\<close> as a truth value: some offset, from left to right, where some alternative matches.\<close>

definition re_search :: "bool \<Rightarrow> string list \<Rightarrow> string \<Rightarrow> bool" where
  "re_search ic alts s =
     list_ex (\<lambda>i. list_ex (\<lambda>lit. match_at ic lit s i) alts) [0..<Suc (length s)]"

text \<open>
  \<^verbatim>\<open>re.finditer\<close> for one literal: the start offsets of the matches, leftmost first and
  not overlapping; after a match the scan goes on behind it (one character further when the
  match is empty).
\<close>

function finditer_from :: "bool \<Rightarrow> string \<Rightarrow> string \<Rightarrow> nat \<Rightarrow> nat list" where
  "finditer_from ic lit s i =
     (if length s < i then []
      else if match_at ic lit s i then i # finditer_from ic lit s (i + max 1 (length lit))
      else finditer_from ic lit s (Suc i))"
  by pat_completeness auto
termination
  by (relation "measure (\<lambda>(ic, lit, s, i). Suc (length s) - i)") auto

declare finditer_from.simps [simp del]

definition finditer :: "bool \<Rightarrow> string \<Rightarrow> string \<Rightarrow> nat list" where
  "finditer ic lit s = finditer_from ic lit s 0"

section \<open>The tables\<close>

text \<open>
  One entry of \<^verbatim>\<open>INTENT_CATEGORIES\<close>; the field \<open>keyword_list\<close> is the entry's
  \<^verbatim>\<open>"keywords"\<close>.
\<close>

record category_data =
  keyword_list :: "string list"
  cloud_resources :: "(string \<times> string list) list"

text \<open>A Python \<^verbatim>\<open>dict\<close> is an association list in insertion order, its keys distinct.\<close>

definition INTENT_CATEGORIES :: "(string \<times> category_data) list" where
  "INTENT_CATEGORIES = [
     (''networking'', \<lparr>
        keyword_list = [''vpc'', ''vnet'', ''network'', ''subnet'', ''gateway'', ''load balancer'',
                    ''alb'', ''nlb'', ''vpn'', ''dns'', ''route'', ''peering''],
        cloud_resources = [
          (''aws'', [''vpc'', ''subnet'', ''internet_gateway'', ''nat_gateway'', ''route_table'',
                     ''elastic_load_balancer'', ''application_load_balancer'']),
          (''azure'', [''virtual_network'', ''subnet'', ''vpn_gateway'', ''load_balancer'']),
          (''gcp'', [''compute_network'', ''compute_subnetwork'', ''compute_vpn_gateway'',
                     ''compute_forwarding_rule''])]\<rparr>),
     (''compute'', \<lparr>
        keyword_list = [''server'', ''instance'', ''ec2'', ''vm'', ''virtual machine'', ''compute'',
                    ''container'', ''auto scaling'', ''asg'', ''vmss'', ''small'', ''medium'',
                    ''large''],
        cloud_resources = [
          (''aws'', [''ec2_instance'', ''autoscaling_group'', ''launch_template'']),
          (''azure'', [''linux_virtual_machine'', ''windows_virtual_machine'',
                       ''virtual_machine_scale_set'']),
          (''gcp'', [''compute_instance'', ''compute_instance_group_manager''])]\<rparr>),
     (''database'', \<lparr>
        keyword_list = [''database'', ''db'', ''rds'', ''sql'', ''mysql'', ''postgres'',
                    ''postgresql'', ''dynamodb'', ''cosmosdb'', ''firestore'', ''mongodb'',
                    ''mariadb''],
        cloud_resources = [
          (''aws'', [''db_instance'', ''dynamodb_table'', ''rds_cluster'']),
          (''azure'', [''mssql_server'', ''mysql_server'', ''postgresql_server'',
                       ''cosmosdb_account'']),
          (''gcp'', [''sql_database_instance'', ''firestore_database''])]\<rparr>),
     (''storage'', \<lparr>
        keyword_list = [''storage'', ''bucket'', ''blob'', ''s3'', ''ebs'', ''disk'', ''volume'',
                    ''file storage'', ''object storage''],
        cloud_resources = [
          (''aws'', [''s3_bucket'', ''ebs_volume'', ''efs_file_system'']),
          (''azure'', [''storage_account'', ''storage_blob'', ''managed_disk'']),
          (''gcp'', [''storage_bucket'', ''compute_disk''])]\<rparr>),
     (''security'', \<lparr>
        keyword_list = [''iam'', ''role'', ''policy'', ''security group'', ''firewall'', ''acl'',
                    ''kms'', ''key vault'', ''secrets'', ''certificate'', ''strict''],
        cloud_resources = [
          (''aws'', [''iam_role'', ''iam_policy'', ''security_group'', ''kms_key'']),
          (''azure'', [''role_assignment'', ''key_vault'', ''network_security_group'']),
          (''gcp'', [''project_iam_binding'', ''compute_firewall'', ''kms_crypto_key''])]\<rparr>),
     (''monitoring'', \<lparr>
        keyword_list = [''monitor'', ''monitoring'', ''logs'', ''alerts'', ''metrics'',
                    ''cloudwatch'', ''log analytics'', ''stackdriver''],
        cloud_resources = [
          (''aws'', [''cloudwatch_log_group'', ''cloudwatch_metric_alarm'', ''sns_topic'']),
          (''azure'', [''monitor_metric_alert'', ''log_analytics_workspace'']),
          (''gcp'', [''monitoring_alert_policy'', ''logging_metric''])]\<rparr>),
     (''container'', \<lparr>
        keyword_list = [''container'', ''docker'', ''kubernetes'', ''k8s'', ''ecs'', ''eks'', ''aks'',
                    ''gke'', ''fargate'', ''pod'', ''deployment''],
        cloud_resources = [
          (''aws'', [''ecs_cluster'', ''ecs_service'', ''eks_cluster'']),
          (''azure'', [''kubernetes_cluster'', ''container_group'']),
          (''gcp'', [''container_cluster'', ''container_node_pool''])]\<rparr>),
     (''serverless'', \<lparr>
        keyword_list = [''lambda'', ''function'', ''serverless'', ''cloud function'',
                    ''azure function''],
        cloud_resources = [
          (''aws'', [''lambda_function'', ''api_gateway_rest_api'']),
          (''azure'', [''function_app'']),
          (''gcp'', [''cloudfunctions_function''])]\<rparr>),
     (''provider'', \<lparr>
        keyword_list = [''aws'', ''amazon web services'', ''azure'', ''microsoft azure'',
                    ''gcp'', ''google cloud'', ''google cloud platform''],
        cloud_resources = []\<rparr>),
     (''os'', \<lparr>
        keyword_list = [''ubuntu'', ''windows'', ''amazon linux'', ''centos'', ''rhel'',
                    ''debian'', ''fedora''],
        cloud_resources = []\<rparr>)]"

definition ACTION_VERBS :: "(string \<times> string list) list" where
  "ACTION_VERBS = [
     (''create'', [''create'', ''deploy'', ''launch'', ''provision'', ''setup'', ''set up'',
                   ''add'', ''build'']),
     (''delete'', [''delete'', ''remove'', ''destroy'', ''terminate'', ''tear down'']),
     (''modify'', [''modify'', ''update'', ''change'', ''edit'', ''configure'']),
     (''query'', [''show'', ''list'', ''describe'', ''get'', ''what'', ''which''])]"

text \<open>
  The two negation patterns, \<^verbatim>\<open>\b(no|not|without|don\'t|dont|never|exclude)\b\<close> and
  \<^verbatim>\<open>\b(except|excluding)\b\<close>, each as the list of its alternatives.
\<close>

definition NEGATION_PATTERNS :: "string list list" where
  "NEGATION_PATTERNS = [
     [''no'', ''not'', ''without'', ''don't'', ''dont'', ''never'', ''exclude''],
     [''except'', ''excluding'']]"

section \<open>IntentParser\<close>

text \<open>
  \<^verbatim>\<open>has_negation\<close>: the last five whitespace-separated words of \<^verbatim>\<open>text[:keyword_position]\<close>
  are searched, each on its own, for either negation pattern (case ignored); the first hit
  returns true. The position is an offset of a match, hence a natural number.
\<close>

definition has_negation :: "string \<Rightarrow> nat \<Rightarrow> bool" where
  "has_negation text keyword_position =
     (let words_before = last_n 5 (split_ws (take keyword_position text))
      in list_ex (\<lambda>word. list_ex (\<lambda>pattern. re_search True pattern word) NEGATION_PATTERNS)
           words_before)"

text \<open>
  \<^verbatim>\<open>extract_action\<close>: the actions in the order of the table, the verbs of each in order,
  searched as \<^verbatim>\<open>\bverb\b\<close> in the lower-cased sentence; the first hit returns its action,
  and no hit at all returns \<^verbatim>\<open>"create"\<close>.
\<close>

fun first_action :: "(string \<times> string list) list \<Rightarrow> string \<Rightarrow> string option" where
  "first_action [] sentence_lower = None"
| "first_action ((action_type, verbs) # rest) sentence_lower =
     (if list_ex (\<lambda>verb. re_search False [verb] sentence_lower) verbs then Some action_type
      else first_action rest sentence_lower)"

definition extract_action :: "string \<Rightarrow> string" where
  "extract_action sentence =
     (case first_action ACTION_VERBS (lower sentence) of
        Some action_type \<Rightarrow> action_type
      | None \<Rightarrow> ''create'')"

text \<open>The detection result, the dictionary that \<^verbatim>\<open>detect_intents\<close> builds.\<close>

record detection =
  action :: string
  categories :: "(string \<times> string list) list"
  negated_categories :: "string set"
  raw_sentence :: string

text \<open>
  The branch of a match that is not negated: the category gets an empty list when it is not
  yet a key, and the keyword is appended to the category's list unless it is in it.
\<close>

definition add_keyword ::
  "string \<Rightarrow> string \<Rightarrow> (string \<times> string list) list \<Rightarrow> (string \<times> string list) list" where
  "add_keyword category keyword cats =
     (let cats1 = (if map_of cats category = None then cats @ [(category, [])] else cats)
      in map (\<lambda>(k, v). if k = category \<and> keyword \<notin> set v then (k, v @ [keyword]) else (k, v))
           cats1)"

text \<open>The body of the loop over the matches of one keyword, for the match that starts at \<open>start\<close>.\<close>

definition record_match :: "string \<Rightarrow> string \<Rightarrow> string \<Rightarrow> nat \<Rightarrow> detection \<Rightarrow> detection" where
  "record_match sentence_lower category keyword start detected =
     (if has_negation sentence_lower start
      then detected\<lparr>negated_categories := insert category (negated_categories detected)\<rparr>
      else detected\<lparr>categories := add_keyword category keyword (categories detected)\<rparr>)"

text \<open>The loop over the matches of a keyword, the loop over the keywords of a category, and the loop over the categories.\<close>

definition scan_keyword :: "string \<Rightarrow> string \<Rightarrow> string \<Rightarrow> detection \<Rightarrow> detection" where
  "scan_keyword sentence_lower category keyword detected =
     fold (record_match sentence_lower category keyword) (finditer True keyword sentence_lower)
       detected"

definition scan_category :: "string \<Rightarrow> string \<times> category_data \<Rightarrow> detection \<Rightarrow> detection" where
  "scan_category sentence_lower entry detected =
     fold (scan_keyword sentence_lower (fst entry)) (keyword_list (snd entry)) detected"

definition scan_categories ::
  "(string \<times> category_data) list \<Rightarrow> string \<Rightarrow> detection \<Rightarrow> detection" where
  "scan_categories table sentence_lower detected =
     fold (scan_category sentence_lower) table detected"

definition detect_intents :: "string \<Rightarrow> detection" where
  "detect_intents sentence =
     scan_categories INTENT_CATEGORIES (lower sentence)
       \<lparr>action = extract_action sentence, categories = [], negated_categories = {},
        raw_sentence = sentence\<rparr>"

text \<open>\<^verbatim>\<open>validate_intent\<close>: two tests, each returning false, in the order of the source.\<close>

definition validate_intent :: "detection \<Rightarrow> bool" where
  "validate_intent detected =
     (if negated_categories detected \<inter> fst ` set (categories detected) \<noteq> {} then False
      else if categories detected = [] then False
      else True)"

text \<open>\<^verbatim>\<open>normalize_provider\<close> and \<^verbatim>\<open>extract_os\<close>; \<open>None\<close> is Python's \<^verbatim>\<open>None\<close>.\<close>

definition normalize_provider :: "detection \<Rightarrow> string option" where
  "normalize_provider detected =
     (case map_of (categories detected) ''provider'' of
        None \<Rightarrow> None
      | Some [] \<Rightarrow> None
      | Some (first # others) \<Rightarrow>
          (let keyword = lower first
           in if contains keyword ''aws'' \<or> contains keyword ''amazon'' then Some ''aws''
              else if contains keyword ''azure'' \<or> contains keyword ''microsoft'' then Some ''azure''
              else if contains keyword ''gcp'' \<or> contains keyword ''google'' then Some ''gcp''
              else None))"

definition extract_os :: "detection \<Rightarrow> string option" where
  "extract_os detected =
     (case map_of (categories detected) ''os'' of
        None \<Rightarrow> None
      | Some [] \<Rightarrow> None
      | Some (os_name # others) \<Rightarrow>
          (if os_name = ''amazon linux'' then Some ''Amazon Linux''
           else if os_name = ''rhel'' then Some ''RHEL''
           else Some (capitalize os_name)))"

section \<open>Auxiliary definitions\<close>

text \<open>
  None of the definitions of this section is part of the program: they state what the
  loops compute, or compute it in a form that evaluates fast, and each is tied to the program
  by a lemma below.
\<close>

text \<open>
  A scan for one literal (case respected) that reads the text once, from left to right:
  \<open>prev\<close> is the character before the current offset \<open>pos\<close>, and \<open>skip\<close> counts the
  characters of the last match that are still to be passed.
\<close>

fun starts_with :: "string \<Rightarrow> string \<Rightarrow> bool" where
  "starts_with [] rest = True"
| "starts_with (l # ls) [] = False"
| "starts_with (l # ls) (c # cs) = (if l = c then starts_with ls cs else False)"

definition boundary_between :: "char option \<Rightarrow> string \<Rightarrow> bool" where
  "boundary_between prev rest =
     ((case prev of None \<Rightarrow> False | Some c \<Rightarrow> is_word_char c)
        \<noteq> (case rest of [] \<Rightarrow> False | c # cs \<Rightarrow> is_word_char c))"

fun fscan :: "string \<Rightarrow> nat \<Rightarrow> nat \<Rightarrow> char option \<Rightarrow> string \<Rightarrow> nat list" where
  "fscan lit skip pos prev [] = []"
| "fscan lit skip pos prev (c # cs) =
     (if skip = 0 then
        (if starts_with lit (c # cs) then
           (if boundary_between prev (c # cs)
                 \<and> boundary_between (Some (last lit)) (drop (length lit) (c # cs))
            then pos # fscan lit (length lit - 1) (Suc pos) (Some c) cs
            else fscan lit 0 (Suc pos) (Some c) cs)
         else fscan lit 0 (Suc pos) (Some c) cs)
      else fscan lit (skip - 1) (Suc pos) (Some c) cs)"

definition prev_char :: "string \<Rightarrow> nat \<Rightarrow> char option" where
  "prev_char s i = (if i = 0 then None else Some (s ! (i - 1)))"

text \<open>
  What the three loops of \<^verbatim>\<open>detect_intents\<close> compute: a keyword is affirmed when one of
  its matches is not negated, and a category is listed with its affirmed keywords, in the
  order of the table, when there are any.
\<close>

definition affirmed :: "string \<Rightarrow> string \<Rightarrow> bool" where
  "affirmed text keyword = list_ex (\<lambda>p. \<not> has_negation text p) (finditer True keyword text)"

definition negated_match :: "string \<Rightarrow> string \<Rightarrow> bool" where
  "negated_match text keyword = list_ex (has_negation text) (finditer True keyword text)"

definition affirmed_keywords :: "string \<Rightarrow> category_data \<Rightarrow> string list" where
  "affirmed_keywords text data = filter (affirmed text) (keyword_list data)"

definition expected_categories ::
  "(string \<times> category_data) list \<Rightarrow> string \<Rightarrow> (string \<times> string list) list" where
  "expected_categories table text =
     filter (\<lambda>entry. snd entry \<noteq> [])
       (map (\<lambda>entry. (fst entry, affirmed_keywords text (snd entry))) table)"

definition expected_negated :: "(string \<times> category_data) list \<Rightarrow> string \<Rightarrow> string set" where
  "expected_negated table text =
     fst ` {entry \<in> set table. list_ex (negated_match text) (keyword_list (snd entry))}"

definition with_entry ::
  "(string \<times> string list) list \<Rightarrow> string \<Rightarrow> string list \<Rightarrow> (string \<times> string list) list" where
  "with_entry base category acc = (if acc = [] then base else base @ [(category, acc)])"

definition table_ok :: "(string \<times> category_data) list \<Rightarrow> bool" where
  "table_ok table =
     (distinct (map fst table) \<and> list_all (\<lambda>entry. distinct (keyword_list (snd entry))) table)"

text \<open>No keyword of the table matches the text as a whole word, at any offset.\<close>

definition no_keyword_match :: "string \<Rightarrow> bool" where
  "no_keyword_match text =
     (\<forall>entry\<in>set INTENT_CATEGORIES. \<forall>k\<in>set (keyword_list (snd entry)).
        \<forall>p. \<not> match_at True k text p)"


text \<open>
  A negation cue (an alternative of either negation pattern) occurs in the token at word
  boundaries, case ignored.
\<close>

definition cue_in_token :: "string \<Rightarrow> bool" where
  "cue_in_token word =
     (\<exists>cue\<in>set (concat NEGATION_PATTERNS). \<exists>p. match_at True cue word p)"




section \<open>Characters, matches and the scan\<close>

lemma lower_char_idem: "lower_char (lower_char c) = lower_char c"
  by (auto simp: lower_char_def less_eq_char_def)

lemma is_word_lower_char: "is_word_char (lower_char c) = is_word_char c"
  by (auto simp: lower_char_def is_word_char_def less_eq_char_def)

lemma space_not_word: "is_space c \<Longrightarrow> \<not> is_word_char c"
  by (auto simp: is_space_def is_word_char_def less_eq_char_def)

lemma lower_idem: "lower (lower s) = lower s"
  by (simp add: lower_def lower_char_idem)

lemma length_lower: "length (lower s) = length s"
  by (simp add: lower_def)

lemma literal_at_bound: "literal_at ic lit s i \<Longrightarrow> lit \<noteq> [] \<Longrightarrow> i + length lit \<le> length s"
proof -
  assume a: "literal_at ic lit s i" and n: "lit \<noteq> []"
  have "length (take (length lit) (drop i s)) = length lit"
    using a by (auto simp: literal_at_def split: if_splits dest: arg_cong[where f=length])
  then show ?thesis using n by (cases "i \<le> length s") auto
qed

lemma word_boundary_bound: "word_boundary s i \<Longrightarrow> i \<le> length s"
  by (auto simp: word_boundary_def word_before_def word_after_def)

lemma match_at_bound: "match_at ic lit s i \<Longrightarrow> i + length lit \<le> length s"
  by (cases "lit = []") (auto simp: match_at_def dest: literal_at_bound word_boundary_bound)

lemma finditer_from_sound:
  "p \<in> set (finditer_from ic lit s i) \<Longrightarrow> i \<le> p \<and> match_at ic lit s p"
proof (induction ic lit s i rule: finditer_from.induct)
  case (1 ic lit s i)
  show ?case
  proof (cases "length s < i")
    case True
    with "1.prems" show ?thesis by (simp add: finditer_from.simps)
  next
    case False
    show ?thesis
    proof (cases "match_at ic lit s i")
      case True
      with False "1.prems" have "p = i \<or> p \<in> set (finditer_from ic lit s (i + max 1 (length lit)))"
        by (simp add: finditer_from.simps[of ic lit s i])
      then show ?thesis using "1.IH"(1)[OF False True] True by auto
    next
      case nm: False
      with False "1.prems" have "p \<in> set (finditer_from ic lit s (Suc i))"
        by (simp add: finditer_from.simps[of ic lit s i])
      then show ?thesis using "1.IH"(2)[OF False nm] by auto
    qed
  qed
qed

lemma finditer_from_complete:
  "match_at ic lit s p \<Longrightarrow> i \<le> p \<Longrightarrow> finditer_from ic lit s i \<noteq> []"
proof (induction ic lit s i rule: finditer_from.induct)
  case (1 ic lit s i)
  have pl: "p \<le> length s" using match_at_bound[OF "1.prems"(1)] by simp
  then have nl: "\<not> length s < i" using "1.prems"(2) by simp
  show ?case
  proof (cases "match_at ic lit s i")
    case True
    then show ?thesis using nl by (simp add: finditer_from.simps[of ic lit s i])
  next
    case False
    then have "i \<noteq> p" using "1.prems"(1) by auto
    then have "Suc i \<le> p" using "1.prems"(2) by simp
    from "1.IH"(2)[OF nl False "1.prems"(1) this] show ?thesis
      using nl False by (simp add: finditer_from.simps[of ic lit s i])
  qed
qed

lemma finditer_sound: "p \<in> set (finditer ic lit s) \<Longrightarrow> match_at ic lit s p"
  using finditer_from_sound by (simp add: finditer_def)

lemma finditer_empty_iff: "finditer ic lit s = [] \<longleftrightarrow> (\<forall>p. \<not> match_at ic lit s p)"
proof
  assume e: "finditer ic lit s = []"
  show "\<forall>p. \<not> match_at ic lit s p"
  proof (intro allI notI)
    fix p assume "match_at ic lit s p"
    from finditer_from_complete[OF this, of 0] e show False by (simp add: finditer_def)
  qed
next
  assume "\<forall>p. \<not> match_at ic lit s p"
  then show "finditer ic lit s = []"
    using finditer_sound[of _ ic lit s] by (cases "finditer ic lit s") auto
qed

text \<open>
  The offsets that \<^verbatim>\<open>finditer\<close> reports increase; when the literal matches at one offset
  only, that offset is the whole report.
\<close>

lemma finditer_from_increasing: "sorted_wrt (<) (finditer_from ic lit s i)"
proof (induction ic lit s i rule: finditer_from.induct)
  case (1 ic lit s i)
  show ?case
  proof (cases "length s < i")
    case True
    then show ?thesis by (simp add: finditer_from.simps[of ic lit s i])
  next
    case False
    show ?thesis
    proof (cases "match_at ic lit s i")
      case True
      have "i < q" if "q \<in> set (finditer_from ic lit s (i + max 1 (length lit)))" for q
      proof -
        have "i + max 1 (length lit) \<le> q" using finditer_from_sound[OF that] by simp
        moreover have "1 \<le> max 1 (length lit)" by (rule max.cobounded1)
        ultimately show ?thesis by linarith
      qed
      then show ?thesis
        using "1.IH"(1)[OF False True] False True
        by (simp add: finditer_from.simps[of ic lit s i])
    next
      case nm: False
      then show ?thesis
        using "1.IH"(2)[OF False nm] False by (simp add: finditer_from.simps[of ic lit s i])
    qed
  qed
qed

lemma finditer_single_occurrence:
  assumes m: "match_at ic lit s p" and u: "\<And>q. match_at ic lit s q \<Longrightarrow> q = p"
  shows "finditer ic lit s = [p]"
proof -
  have ne: "finditer ic lit s \<noteq> []"
    using m by (auto simp: finditer_empty_iff)
  have all: "\<And>q. q \<in> set (finditer ic lit s) \<Longrightarrow> q = p"
    using finditer_sound u by blast
  have d: "distinct (finditer ic lit s)"
    unfolding finditer_def using finditer_from_increasing[of ic lit s 0]
    by (simp add: strict_sorted_iff)
  obtain x xs where c: "finditer ic lit s = x # xs" using ne by (cases "finditer ic lit s") auto
  have "x = p" using all c by simp
  moreover have "xs = []"
  proof (cases xs)
    case (Cons y ys)
    then have "y = p" using all c by simp
    then show ?thesis using d c Cons \<open>x = p\<close> by simp
  qed simp
  ultimately show ?thesis using c by simp
qed

lemma starts_with_iff: "starts_with lit rest \<longleftrightarrow> take (length lit) rest = lit"
  by (induction lit rest rule: starts_with.induct) auto

lemma boundary_between_start:
  "i \<le> length s \<Longrightarrow> boundary_between (prev_char s i) (drop i s) = word_boundary s i"
proof -
  assume il: "i \<le> length s"
  have a: "word_after s i = (case drop i s of [] \<Rightarrow> False | c # cs \<Rightarrow> is_word_char c)"
  proof (cases "i < length s")
    case True
    then have "drop i s = s ! i # drop (Suc i) s" by (simp add: Cons_nth_drop_Suc)
    then show ?thesis using True by (simp add: word_after_def)
  next
    case False
    then show ?thesis by (simp add: word_after_def)
  qed
  have b: "word_before s i = (case prev_char s i of None \<Rightarrow> False | Some c \<Rightarrow> is_word_char c)"
    using il by (simp add: word_before_def prev_char_def)
  show ?thesis by (simp add: boundary_between_def word_boundary_def a b)
qed

lemma fscan_skip:
  "0 < k \<Longrightarrow> k \<le> length rest \<Longrightarrow>
   fscan lit k i pv rest = fscan lit 0 (i + k) (Some (rest ! (k - 1))) (drop k rest)"
proof (induction rest arbitrary: k i pv)
  case Nil
  then show ?case by simp
next
  case (Cons c cs)
  show ?case
  proof (cases "k = 1")
    case True
    then show ?thesis by simp
  next
    case False
    with Cons.prems have k: "0 < k - 1" "k - 1 \<le> length cs" by auto
    have "fscan lit k i pv (c # cs) = fscan lit (k - 1) (Suc i) (Some c) cs"
      using Cons.prems by simp
    also have "\<dots> = fscan lit 0 (Suc i + (k - 1)) (Some (cs ! (k - 1 - 1))) (drop (k - 1) cs)"
      by (rule Cons.IH[OF k])
    finally show ?thesis using k Cons.prems by (cases k) (auto simp: nth_Cons')
  qed
qed

lemma match_at_fscan_test:
  assumes "lit \<noteq> []" "i < length s"
  shows "match_at False lit s i \<longleftrightarrow>
         (starts_with lit (drop i s) \<and> boundary_between (prev_char s i) (drop i s)
            \<and> boundary_between (Some (last lit)) (drop (length lit) (drop i s)))"
proof (cases "take (length lit) (drop i s) = lit")
  case False
  then show ?thesis by (simp add: match_at_def literal_at_def starts_with_iff)
next
  case True
  then have "length (take (length lit) (drop i s)) = length lit" by simp
  then have b: "i + length lit \<le> length s" using assms by auto
  have e: "i + length lit - Suc 0 = i + (length lit - Suc 0)" using assms by (cases lit) auto
  have "s ! (i + length lit - 1) = (take (length lit) (drop i s)) ! (length lit - 1)"
    using assms b by (simp add: e)
  also have "\<dots> = last lit" using True assms by (simp add: last_conv_nth)
  finally have l: "s ! (i + length lit - 1) = last lit" .
  have "prev_char s (i + length lit) = Some (last lit)"
    using assms l by (simp add: prev_char_def)
  then have "boundary_between (Some (last lit)) (drop (length lit) (drop i s))
      = word_boundary s (i + length lit)"
    using boundary_between_start[OF b] by (simp add: add.commute)
  then show ?thesis
    using True assms boundary_between_start[of i s]
    by (simp add: match_at_def literal_at_def starts_with_iff)
qed

lemma finditer_from_fscan:
  "lit \<noteq> [] \<Longrightarrow> i \<le> length s \<Longrightarrow>
   finditer_from False lit s i = fscan lit 0 i (prev_char s i) (drop i s)"
proof (induction "False" lit s i rule: finditer_from.induct)
  case (1 lit s i)
  show ?case
  proof (cases "i = length s")
    case True
    then have "\<not> match_at False lit s i"
      using match_at_bound[of False lit s i] "1.prems" by auto
    moreover have "\<not> length s < i" "length s < Suc i" using True by auto
    ultimately have "finditer_from False lit s i = []"
      by (simp add: finditer_from.simps[of False lit s i]
            finditer_from.simps[of False lit s "Suc i"])
    then show ?thesis using True by simp
  next
    case False
    with "1.prems" have il: "i < length s" by simp
    then obtain c cs where d: "drop i s = c # cs"
      by (cases "drop i s") auto
    have c: "c = s ! i" using d il by (metis nth_via_drop)
    have cs: "cs = drop (Suc i) s" using d by (metis drop_Suc drop_drop list.sel(3) tl_drop plus_1_eq_Suc)
    have pv: "prev_char s (Suc i) = Some c" by (simp add: prev_char_def c)
    have nl: "\<not> length s < i" using il by simp
    show ?thesis
    proof (cases "match_at False lit s i")
      case nm: False
      have "finditer_from False lit s i = finditer_from False lit s (Suc i)"
        using nl nm by (simp add: finditer_from.simps[of False lit s i])
      also have "\<dots> = fscan lit 0 (Suc i) (prev_char s (Suc i)) (drop (Suc i) s)"
        using "1.hyps"(2)[OF nl nm "1.prems"(1)] il by simp
      finally show ?thesis
        using nm match_at_fscan_test[OF "1.prems"(1) il] d pv cs by auto
    next
      case m: True
      obtain l ls where lit: "lit = l # ls" using "1.prems"(1) by (cases lit) auto
      let ?n = "length lit"
      have b: "i + ?n \<le> length s" using match_at_bound[OF m] .
      have mx: "max 1 ?n = ?n" by (simp add: lit)
      have "finditer_from False lit s i = i # finditer_from False lit s (i + ?n)"
        using nl m mx by (simp add: finditer_from.simps[of False lit s i])
      also have "finditer_from False lit s (i + ?n)
           = fscan lit 0 (i + ?n) (prev_char s (i + ?n)) (drop (i + ?n) s)"
        using "1.hyps"(1)[OF nl m "1.prems"(1)] b by (simp only: mx)
      also have "\<dots> = fscan lit (?n - 1) (Suc i) (Some c) cs"
      proof (cases ls)
        case Nil
        then show ?thesis using pv cs by (simp add: lit)
      next
        case (Cons l2 ls2)
        have k: "0 < ?n - 1" "?n - 1 \<le> length cs" using b cs by (auto simp: lit Cons)
        have "cs ! (?n - 1 - 1) = s ! (i + ?n - 1)"
          using cs b by (simp add: lit Cons)
        then show ?thesis
          using fscan_skip[OF k, of lit "Suc i" "Some c"] cs
          by (simp add: prev_char_def lit Cons add.commute)
      qed
      finally show ?thesis
        using m match_at_fscan_test[OF "1.prems"(1) il] d by simp
    qed
  qed
qed

lemma finditer_fscan: "lit \<noteq> [] \<Longrightarrow> finditer False lit s = fscan lit 0 0 None s"
  using finditer_from_fscan[of lit 0 s] by (simp add: finditer_def prev_char_def)

lemma finditer_from_cong:
  "(\<And>p. match_at ic lit s p = match_at ic' lit' s p) \<Longrightarrow> length lit = length lit' \<Longrightarrow>
   finditer_from ic lit s i = finditer_from ic' lit' s i"
proof (induction ic lit s i rule: finditer_from.induct)
  case (1 ic lit s i)
  show ?case
  proof (cases "length s < i")
    case True
    then show ?thesis
      by (simp add: finditer_from.simps[of ic lit s i] finditer_from.simps[of ic' lit' s i])
  next
    case False
    show ?thesis
    proof (cases "match_at ic lit s i")
      case True
      then have "match_at ic' lit' s i" using "1.prems"(1) by simp
      then show ?thesis
        using "1.IH"(1)[OF False True "1.prems"] False True "1.prems"(2)
        by (simp add: finditer_from.simps[of ic lit s i] finditer_from.simps[of ic' lit' s i])
    next
      case nm: False
      then have "\<not> match_at ic' lit' s i" using "1.prems"(1) by simp
      then show ?thesis
        using "1.IH"(2)[OF False nm "1.prems"] False nm
        by (simp add: finditer_from.simps[of ic lit s i] finditer_from.simps[of ic' lit' s i])
    qed
  qed
qed

lemma literal_at_ic_lower:
  assumes "lower s = s"
  shows "literal_at True lit s p = literal_at False (lower lit) s p"
proof -
  have "map lower_char (take (length lit) (drop p s)) = take (length lit) (drop p (lower s))"
    unfolding lower_def by (simp only: take_map drop_map)
  then have "map lower_char (take (length lit) (drop p s)) = take (length lit) (drop p s)"
    by (simp only: assms)
  then show ?thesis
    unfolding literal_at_def by (simp only: if_True if_False length_lower) (simp only: lower_def)
qed

lemma match_at_ic_lower:
  "lower s = s \<Longrightarrow> match_at True lit s p = match_at False (lower lit) s p"
  unfolding match_at_def by (simp only: literal_at_ic_lower length_lower)

lemma finditer_lowered:
  assumes a: "lower s = s" and n: "lit \<noteq> []"
  shows "finditer True lit s = fscan (lower lit) 0 0 None s"
proof -
  have "finditer_from True lit s 0 = finditer_from False (lower lit) s 0"
    by (rule finditer_from_cong) (simp_all only: match_at_ic_lower[OF a] length_lower)
  then have "finditer True lit s = finditer False (lower lit) s"
    by (simp only: finditer_def)
  moreover have "lower lit \<noteq> []" using n by (simp add: lower_def)
  ultimately show ?thesis using finditer_fscan[of "lower lit" s] by simp
qed

lemma re_search_iff:
  "re_search ic alts s \<longleftrightarrow> (\<exists>lit\<in>set alts. \<exists>p. match_at ic lit s p)"
proof
  assume "re_search ic alts s"
  then show "\<exists>lit\<in>set alts. \<exists>p. match_at ic lit s p"
    unfolding re_search_def list_ex_iff by blast
next
  assume "\<exists>lit\<in>set alts. \<exists>p. match_at ic lit s p"
  then obtain lit p where l: "lit \<in> set alts" and m: "match_at ic lit s p" by blast
  have "p \<le> length s" using match_at_bound[OF m] by simp
  then have "p \<in> set [0..<Suc (length s)]" by auto
  then show "re_search ic alts s"
    unfolding re_search_def list_ex_iff using l m by blast
qed

lemma re_search_finditer:
  "re_search ic alts s = list_ex (\<lambda>lit. finditer ic lit s \<noteq> []) alts"
  by (simp only: re_search_iff list_ex_iff finditer_empty_iff not_all not_not)

section \<open>The loops of \<^verbatim>\<open>detect_intents\<close>\<close>

lemma add_keyword_with_entry:
  assumes "category \<notin> fst ` set base"
  shows "add_keyword category keyword (with_entry base category acc) =
         with_entry base category (if keyword \<in> set acc then acc else acc @ [keyword])"
proof -
  have none: "map_of base category = None"
    using assms by (simp add: map_of_eq_None_iff)
  have same: "map (\<lambda>(k, v). if k = category \<and> keyword \<notin> set v then (k, v @ [keyword]) else (k, v)) base = base"
    using assms by (induction base) auto
  show ?thesis
  proof (cases "acc = []")
    case True
    then show ?thesis by (simp add: add_keyword_def with_entry_def none same)
  next
    case False
    then show ?thesis by (simp add: add_keyword_def with_entry_def none same map_add_def)
  qed
qed

lemma fold_record_match_categories:
  assumes "category \<notin> fst ` set base"
  shows "categories detected = with_entry base category acc \<Longrightarrow>
         categories (fold (record_match text category keyword) ps detected) =
           with_entry base category
             (if (\<exists>p\<in>set ps. \<not> has_negation text p) \<and> keyword \<notin> set acc then acc @ [keyword]
              else acc)"
proof (induction ps arbitrary: detected acc)
  case Nil
  then show ?case by simp
next
  case (Cons p ps)
  show ?case
  proof (cases "has_negation text p")
    case True
    then have "categories (record_match text category keyword p detected) = with_entry base category acc"
      using Cons.prems by (simp add: record_match_def)
    from Cons.IH[OF this] True show ?thesis by simp
  next
    case False
    let ?acc = "if keyword \<in> set acc then acc else acc @ [keyword]"
    have "categories (record_match text category keyword p detected) = with_entry base category ?acc"
      using Cons.prems False by (simp add: record_match_def add_keyword_with_entry[OF assms])
    from Cons.IH[OF this] False show ?thesis by simp
  qed
qed

lemma fold_record_match_negated:
  "negated_categories (fold (record_match text category keyword) ps detected) =
     (if \<exists>p\<in>set ps. has_negation text p then insert category (negated_categories detected)
      else negated_categories detected)"
  by (induction ps arbitrary: detected) (auto simp: record_match_def)

lemma fold_record_match_other:
  "action (fold (record_match text category keyword) ps detected) = action detected"
  "raw_sentence (fold (record_match text category keyword) ps detected) = raw_sentence detected"
  by (induction ps arbitrary: detected) (auto simp: record_match_def)

lemma scan_keyword_categories:
  assumes "category \<notin> fst ` set base" "categories detected = with_entry base category acc"
    "keyword \<notin> set acc"
  shows "categories (scan_keyword text category keyword detected) =
           with_entry base category (if affirmed text keyword then acc @ [keyword] else acc)"
  using fold_record_match_categories[OF assms(1,2)] assms(3)
  by (simp add: scan_keyword_def affirmed_def list_ex_iff)

lemma scan_keyword_negated:
  "negated_categories (scan_keyword text category keyword detected) =
     (if negated_match text keyword then insert category (negated_categories detected)
      else negated_categories detected)"
  by (simp add: scan_keyword_def negated_match_def list_ex_iff fold_record_match_negated)

lemma scan_keyword_other:
  "action (scan_keyword text category keyword detected) = action detected"
  "raw_sentence (scan_keyword text category keyword detected) = raw_sentence detected"
  by (simp_all add: scan_keyword_def fold_record_match_other)

lemma fold_scan_keyword_categories:
  assumes "category \<notin> fst ` set base"
  shows "categories detected = with_entry base category acc \<Longrightarrow> distinct ks \<Longrightarrow>
         set ks \<inter> set acc = {} \<Longrightarrow>
         categories (fold (scan_keyword text category) ks detected) =
           with_entry base category (acc @ filter (affirmed text) ks)"
proof (induction ks arbitrary: detected acc)
  case Nil
  then show ?case by simp
next
  case (Cons k ks)
  let ?acc = "if affirmed text k then acc @ [k] else acc"
  have k: "k \<notin> set acc" using Cons.prems(3) by auto
  have 1: "categories (scan_keyword text category k detected) = with_entry base category ?acc"
    using scan_keyword_categories[OF assms Cons.prems(1) k] .
  have 2: "distinct ks" "set ks \<inter> set ?acc = {}" using Cons.prems(2,3) by auto
  from Cons.IH[OF 1 2] show ?case by simp
qed

lemma fold_scan_keyword_negated:
  "negated_categories (fold (scan_keyword text category) ks detected) =
     (if list_ex (negated_match text) ks then insert category (negated_categories detected)
      else negated_categories detected)"
  by (induction ks arbitrary: detected) (auto simp: scan_keyword_negated)

lemma fold_scan_keyword_other:
  "action (fold (scan_keyword text category) ks detected) = action detected"
  "raw_sentence (fold (scan_keyword text category) ks detected) = raw_sentence detected"
  by (induction ks arbitrary: detected) (auto simp: scan_keyword_other)

lemma scan_categories_categories:
  "table_ok table \<Longrightarrow> fst ` set (categories detected) \<inter> fst ` set table = {} \<Longrightarrow>
   categories (scan_categories table text detected) =
     categories detected @ expected_categories table text"
proof (induction table arbitrary: detected)
  case Nil
  then show ?case by (simp add: scan_categories_def expected_categories_def)
next
  case (Cons entry table)
  obtain c data where e: "entry = (c, data)" by (cases entry)
  let ?d = "scan_category text entry detected"
  let ?A = "affirmed_keywords text data"
  have c: "c \<notin> fst ` set (categories detected)" using Cons.prems(2) e by auto
  have d: "distinct (keyword_list data)" using Cons.prems(1) e by (simp add: table_ok_def)
  have "categories ?d = with_entry (categories detected) c ([] @ filter (affirmed text) (keyword_list data))"
    unfolding scan_category_def e fst_conv snd_conv
    by (rule fold_scan_keyword_categories[OF c _ d]) (simp_all add: with_entry_def)
  then have cd: "categories ?d = with_entry (categories detected) c ?A"
    by (simp add: affirmed_keywords_def)
  have ok: "table_ok table" using Cons.prems(1) by (simp add: table_ok_def)
  have "c \<notin> fst ` set table" using Cons.prems(1) e by (simp add: table_ok_def)
  then have dis: "fst ` set (categories ?d) \<inter> fst ` set table = {}"
    using Cons.prems(2) cd by (auto simp: with_entry_def split: if_splits)
  have "categories (scan_categories (entry # table) text detected)
        = categories (scan_categories table text ?d)"
    by (simp add: scan_categories_def)
  also have "\<dots> = categories ?d @ expected_categories table text"
    by (rule Cons.IH[OF ok dis])
  finally show ?case
    using cd by (simp add: expected_categories_def with_entry_def e)
qed

lemma scan_categories_negated:
  "negated_categories (scan_categories table text detected) =
     negated_categories detected \<union> expected_negated table text"
proof (induction table arbitrary: detected)
  case Nil
  then show ?case by (simp add: scan_categories_def expected_negated_def)
next
  case (Cons entry table)
  have "negated_categories (scan_categories (entry # table) text detected)
        = negated_categories (scan_categories table text (scan_category text entry detected))"
    by (simp add: scan_categories_def)
  also have "\<dots> = negated_categories (scan_category text entry detected) \<union> expected_negated table text"
    by (rule Cons.IH)
  finally show ?case
    by (auto simp: scan_category_def fold_scan_keyword_negated expected_negated_def)
qed

lemma scan_categories_other:
  "action (scan_categories table text detected) = action detected"
  "raw_sentence (scan_categories table text detected) = raw_sentence detected"
  by (induction table arbitrary: detected)
     (auto simp: scan_categories_def scan_category_def fold_scan_keyword_other)

lemma table_ok_INTENT_CATEGORIES: "table_ok INTENT_CATEGORIES"
  by (simp add: table_ok_def INTENT_CATEGORIES_def)

lemma detect_intents_categories:
  "categories (detect_intents s) = expected_categories INTENT_CATEGORIES (lower s)"
  using scan_categories_categories[OF table_ok_INTENT_CATEGORIES, of _ "lower s"]
  by (simp add: detect_intents_def)

lemma detect_intents_negated:
  "negated_categories (detect_intents s) = expected_negated INTENT_CATEGORIES (lower s)"
  by (simp add: detect_intents_def scan_categories_negated)

lemma detect_intents_other:
  "action (detect_intents s) = extract_action s" "raw_sentence (detect_intents s) = s"
  by (simp_all add: detect_intents_def scan_categories_other)

section \<open>Evaluation\<close>

text \<open>
  The code equations that concrete sentences are evaluated with: the one-pass scan instead
  of the search offset by offset.
\<close>

lemma finditer_code [code]:
  "finditer ic lit s =
     (if lit = [] then finditer_from ic lit s 0
      else if ic then (if lower s = s then fscan (lower lit) 0 0 None s
                       else finditer_from ic lit s 0)
      else fscan lit 0 0 None s)"
  using finditer_lowered[of s lit] finditer_fscan[of lit s] by (simp add: finditer_def)

lemma re_search_code [code]:
  "re_search ic alts s = list_ex (\<lambda>lit. finditer ic lit s \<noteq> []) alts"
  by (rule re_search_finditer)

section \<open>Validation\<close>

text \<open>
  Claim C2. \<^verbatim>\<open>validate_intent\<close> returns false exactly when the \<open>categories\<close> dictionary
  of the result is empty or some category name is both one of its keys and a member of
  \<open>negated_categories\<close>, and true otherwise. It is a function from the result to a truth
  value: the source assigns to nothing, so there is no changed result to return.
\<close>

theorem validate_intent_false_iff:
  "validate_intent detected =
     (\<not> (categories detected = []
         \<or> (\<exists>c. c \<in> fst ` set (categories detected) \<and> c \<in> negated_categories detected)))"
  by (auto simp: validate_intent_def)

theorem validate_intent_false_iff_witness:
  "validate_intent \<lparr>action = ''create'', categories = [(''compute'', [''server''])],
     negated_categories = {''database''}, raw_sentence = ''a server without a database''\<rparr>
   \<and> \<not> validate_intent \<lparr>action = ''create'', categories = [(''database'', [''mysql''])],
     negated_categories = {''database''}, raw_sentence = ''no database but mysql''\<rparr>
   \<and> \<not> validate_intent \<lparr>action = ''create'', categories = [],
     negated_categories = {}, raw_sentence = ''hello''\<rparr>"
  using validate_intent_false_iff
    [of "\<lparr>action = ''create'', categories = [(''compute'', [''server''])],
       negated_categories = {''database''}, raw_sentence = ''a server without a database''\<rparr>"]
    validate_intent_false_iff
    [of "\<lparr>action = ''create'', categories = [(''database'', [''mysql''])],
       negated_categories = {''database''}, raw_sentence = ''no database but mysql''\<rparr>"]
    validate_intent_false_iff
    [of "\<lparr>action = ''create'', categories = [],
       negated_categories = {}, raw_sentence = ''hello''\<rparr>"]
  by simp

section \<open>The scenario of the module's own test list\<close>

text \<open>
  Claim C4. For the sentence \<^verbatim>\<open>"Deploy a small Ubuntu server on AWS with MySQL"\<close>,
  \<^verbatim>\<open>detect_intents\<close> returns the action \<^verbatim>\<open>"create"\<close>, the categories compute (with
  \<^verbatim>\<open>"server"\<close> and \<^verbatim>\<open>"small"\<close>), database (with \<^verbatim>\<open>"mysql"\<close>), provider (with
  \<^verbatim>\<open>"aws"\<close>) and os (with \<^verbatim>\<open>"ubuntu"\<close>) and no others, and no negated category; on this
  result \<^verbatim>\<open>validate_intent\<close> is true, \<^verbatim>\<open>normalize_provider\<close> is \<^verbatim>\<open>"aws"\<close> and
  \<^verbatim>\<open>extract_os\<close> is \<^verbatim>\<open>"Ubuntu"\<close>.
\<close>

theorem round_trip_scenario:
  "detect_intents ''Deploy a small Ubuntu server on AWS with MySQL'' =
     \<lparr>action = ''create'',
      categories = [(''compute'', [''server'', ''small'']), (''database'', [''mysql'']),
                    (''provider'', [''aws'']), (''os'', [''ubuntu''])],
      negated_categories = {},
      raw_sentence = ''Deploy a small Ubuntu server on AWS with MySQL''\<rparr>
   \<and> validate_intent (detect_intents ''Deploy a small Ubuntu server on AWS with MySQL'')
   \<and> normalize_provider (detect_intents ''Deploy a small Ubuntu server on AWS with MySQL'')
       = Some ''aws''
   \<and> extract_os (detect_intents ''Deploy a small Ubuntu server on AWS with MySQL'')
       = Some ''Ubuntu''"
proof -
  have d: "detect_intents ''Deploy a small Ubuntu server on AWS with MySQL'' =
     \<lparr>action = ''create'',
      categories = [(''compute'', [''server'', ''small'']), (''database'', [''mysql'']),
                    (''provider'', [''aws'']), (''os'', [''ubuntu''])],
      negated_categories = {},
      raw_sentence = ''Deploy a small Ubuntu server on AWS with MySQL''\<rparr>"
    by code_simp
  have v: "validate_intent (detect_intents ''Deploy a small Ubuntu server on AWS with MySQL'')"
    unfolding d by (simp add: validate_intent_def)
  have n: "normalize_provider (detect_intents ''Deploy a small Ubuntu server on AWS with MySQL'')
       = Some ''aws''"
    unfolding d by code_simp
  have e: "extract_os (detect_intents ''Deploy a small Ubuntu server on AWS with MySQL'')
       = Some ''Ubuntu''"
    unfolding d by code_simp
  from d v n e show ?thesis by (intro conjI)
qed

theorem round_trip_scenario_witness:
  "map_of (categories (detect_intents ''Deploy a small Ubuntu server on AWS with MySQL''))
     ''compute'' = Some [''server'', ''small'']
   \<and> action (detect_intents ''Deploy a small Ubuntu server on AWS with MySQL'') = ''create''"
  using round_trip_scenario by simp

section \<open>The operating system\<close>




section \<open>Facts about the result of \<^verbatim>\<open>detect_intents\<close>\<close>

lemma expected_categories_member:
  assumes "(c, ks) \<in> set (expected_categories table text)"
  shows "\<exists>data. (c, data) \<in> set table \<and> ks = affirmed_keywords text data \<and> ks \<noteq> []"
  using assms by (auto simp: expected_categories_def)

lemma filter_members: "filter (\<lambda>x. x \<in> set (filter P xs)) xs = filter P xs"
  by (rule filter_cong) auto

lemma no_keyword_match_code:
  "no_keyword_match text =
     list_all (\<lambda>entry. list_all (\<lambda>k. finditer True k text = []) (keyword_list (snd entry)))
       INTENT_CATEGORIES"
  by (simp add: no_keyword_match_def list_all_iff finditer_empty_iff)

lemma no_match_not_affirmed: "finditer True k text = [] \<Longrightarrow> \<not> affirmed text k"
  by (simp add: affirmed_def)

lemma no_match_not_negated: "finditer True k text = [] \<Longrightarrow> \<not> negated_match text k"
  by (simp add: negated_match_def)

lemma no_keyword_match_categories:
  assumes "no_keyword_match (lower s)"
  shows "categories (detect_intents s) = []"
proof -
  have "\<And>entry. entry \<in> set INTENT_CATEGORIES \<Longrightarrow> affirmed_keywords (lower s) (snd entry) = []"
    using assms
    by (auto simp: no_keyword_match_code list_all_iff affirmed_keywords_def filter_empty_conv
          no_match_not_affirmed)
  then show ?thesis
    by (simp add: detect_intents_categories expected_categories_def filter_empty_conv)
qed

lemma no_keyword_match_negated:
  assumes "no_keyword_match (lower s)"
  shows "negated_categories (detect_intents s) = {}"
  using assms
  by (auto simp: detect_intents_negated expected_negated_def no_keyword_match_code list_all_iff
        list_ex_iff no_match_not_negated)

lemma no_word_no_boundary: "\<forall>c\<in>set text. \<not> is_word_char c \<Longrightarrow> \<not> word_boundary text p"
  by (auto simp: word_boundary_def word_before_def word_after_def)

lemma whitespace_no_keyword_match:
  assumes "\<forall>c\<in>set s. is_space c"
  shows "no_keyword_match (lower s)"
proof -
  have "\<forall>c\<in>set (lower s). \<not> is_word_char c"
    using assms by (auto simp: lower_def is_word_lower_char dest: space_not_word)
  then show ?thesis
    by (simp add: no_keyword_match_def match_at_def no_word_no_boundary)
qed

lemma no_categories_no_provider:
  "categories detected = [] \<Longrightarrow> normalize_provider detected = None \<and> extract_os detected = None"
  by (simp add: normalize_provider_def extract_os_def)

section \<open>No match\<close>

text \<open>
  Claim C8. \<^verbatim>\<open>detect_intents\<close> is a total function: every loop of the source runs over a
  finite table or a finite list of matches, no statement of it can raise on a string, and
  the model has no error value to return. When no declared keyword matches the lower-cased
  sentence as a whole word anywhere, the result has empty \<open>categories\<close> and empty
  \<open>negated_categories\<close>, \<^verbatim>\<open>validate_intent\<close> is false on it, and \<^verbatim>\<open>normalize_provider\<close> and
  \<^verbatim>\<open>extract_os\<close> return none; this covers every sentence of whitespace only and the empty
  sentence. Whenever \<open>categories\<close> is empty, for whatever reason, \<^verbatim>\<open>validate_intent\<close> is
  false.
\<close>

theorem no_match_degrades_gracefully:
  "(no_keyword_match (lower s) \<or> (\<forall>c\<in>set s. is_space c) \<or> s = [] \<longrightarrow>
      categories (detect_intents s) = [] \<and> negated_categories (detect_intents s) = {}
      \<and> \<not> validate_intent (detect_intents s)
      \<and> normalize_provider (detect_intents s) = None \<and> extract_os (detect_intents s) = None)
   \<and> (categories (detect_intents s) = [] \<longrightarrow> \<not> validate_intent (detect_intents s))"
proof -
  have v: "categories (detect_intents s) = [] \<longrightarrow> \<not> validate_intent (detect_intents s)"
    by (simp add: validate_intent_def)
  have "categories (detect_intents s) = [] \<and> negated_categories (detect_intents s) = {}
      \<and> \<not> validate_intent (detect_intents s)
      \<and> normalize_provider (detect_intents s) = None \<and> extract_os (detect_intents s) = None"
    if h: "no_keyword_match (lower s) \<or> (\<forall>c\<in>set s. is_space c) \<or> s = []"
  proof -
    have n: "no_keyword_match (lower s)"
      using h whitespace_no_keyword_match[of s] by auto
    have c: "categories (detect_intents s) = []"
      by (rule no_keyword_match_categories[OF n])
    show ?thesis
      using c v no_keyword_match_negated[OF n] no_categories_no_provider[OF c] by simp
  qed
  then show ?thesis using v by simp
qed

theorem no_match_degrades_gracefully_witness:
  "categories (detect_intents ''hello world'') = []
   \<and> negated_categories (detect_intents ''hello world'') = {}
   \<and> \<not> validate_intent (detect_intents ''hello world'')
   \<and> categories (detect_intents [CHR '' '', CHR 0x09, CHR 0x0A]) = []
   \<and> \<not> validate_intent (detect_intents [CHR '' '', CHR 0x09, CHR 0x0A])
   \<and> categories (detect_intents []) = []
   \<and> \<not> validate_intent (detect_intents [])
   \<and> normalize_provider (detect_intents []) = None"
proof -
  have 1: "no_keyword_match (lower ''hello world'')"
    unfolding no_keyword_match_code by code_simp
  have 2: "\<forall>c\<in>set [CHR '' '', CHR 0x09, CHR 0x0A]. is_space c"
    by (simp add: is_space_def)
  show ?thesis
    using no_match_degrades_gracefully[of "''hello world''"] 1
      no_match_degrades_gracefully[of "[CHR '' '', CHR 0x09, CHR 0x0A]"] 2
      no_match_degrades_gracefully[of "[]"]
    by simp
qed

section \<open>The order of the keyword lists\<close>

text \<open>
  Claim C9. Every list in \<open>categories\<close> is the keyword table of its category restricted
  to the keywords that the list holds: the keywords stand in the order in which the table
  declares them, whatever their order in the sentence. For \<^verbatim>\<open>"mysql database"\<close> the
  database list is \<^verbatim>\<open>["database", "mysql"]\<close>.
\<close>

theorem keyword_lists_in_declared_order:
  "(\<forall>(c, ks)\<in>set (categories (detect_intents s)).
      \<exists>data. map_of INTENT_CATEGORIES c = Some data
        \<and> ks = filter (\<lambda>k. k \<in> set ks) (keyword_list data))
   \<and> categories (detect_intents ''mysql database'') = [(''database'', [''database'', ''mysql''])]"
proof -
  have "\<exists>data. map_of INTENT_CATEGORIES c = Some data
          \<and> ks = filter (\<lambda>k. k \<in> set ks) (keyword_list data)"
    if "(c, ks) \<in> set (categories (detect_intents s))" for c ks
  proof -
    have "(c, ks) \<in> set (expected_categories INTENT_CATEGORIES (lower s))"
      using that by (simp only: detect_intents_categories)
    from expected_categories_member[OF this]
    obtain data where d: "(c, data) \<in> set INTENT_CATEGORIES"
      and ks: "ks = affirmed_keywords (lower s) data"
      by blast
    have "map_of INTENT_CATEGORIES c = Some data"
      using d table_ok_INTENT_CATEGORIES by (simp add: table_ok_def)
    moreover have "ks = filter (\<lambda>k. k \<in> set ks) (keyword_list data)"
      unfolding ks affirmed_keywords_def by (simp only: filter_members)
    ultimately show ?thesis by blast
  qed
  moreover have "categories (detect_intents ''mysql database'')
      = [(''database'', [''database'', ''mysql''])]"
    by code_simp
  ultimately show ?thesis by blast
qed

theorem keyword_lists_in_declared_order_witness:
  "\<exists>data. map_of INTENT_CATEGORIES ''database'' = Some data
     \<and> [''database'', ''mysql''] =
         filter (\<lambda>k. k \<in> set [''database'', ''mysql'']) (keyword_list data)"
proof -
  have "(''database'', [''database'', ''mysql''])
          \<in> set (categories (detect_intents ''mysql database''))"
    using keyword_lists_in_declared_order[of "''mysql database''"] by simp
  then show ?thesis
    using keyword_lists_in_declared_order[of "''mysql database''"] by blast
qed

subsection \<open>Substrings and the detected provider list\<close>





section \<open>The provider\<close>




subsection \<open>One match in all\<close>




section \<open>A single keyword\<close>



subsection \<open>Tokens and cues\<close>



lemma cue_in_token_code [code]:
  "cue_in_token word = re_search True (concat NEGATION_PATTERNS) word"
  by (simp add: cue_in_token_def re_search_iff)



section \<open>The negation window\<close>




subsection \<open>Whole words\<close>









section \<open>Negation cues inside a token\<close>





section \<open>The action\<close>



end
